theory Spec2Isabelle
  imports Complex_Main "HOL-Library.Product_Lexorder"
begin

section \<open>Data model\<close>

text \<open>
  A Python \<open>str\<close> is a sequence of Unicode code points; it is modelled as a list of
  natural numbers, so that \<open>strip\<close> can see the whitespace code points beyond Latin-1
  (for instance the ideographic space). \<open>py\<close> reads an ASCII literal.

  A Python \<open>float\<close> that holds a finite number is a rational; coordinates and sizes are
  modelled as \<open>rat\<close>, with exact arithmetic: rounding and NaN are not modelled.
\<close>

type_synonym pystr = "nat list"

definition py :: "string \<Rightarrow> pystr" where
  "py s = map of_char s"

text \<open>The paragraph delimiter, the one-character string \<open>"+"\<close>.\<close>

definition PLUS :: pystr where
  "PLUS = [43]"

text \<open>The tuple \<open>(cy, cx, text, size)\<close> of the source.\<close>

type_synonym item = "rat \<times> rat \<times> pystr \<times> rat"

definition item_y :: "item \<Rightarrow> rat" where
  "item_y it = fst it"

definition item_x :: "item \<Rightarrow> rat" where
  "item_x it = fst (snd it)"

definition item_text :: "item \<Rightarrow> pystr" where
  "item_text it = fst (snd (snd it))"

definition item_size :: "item \<Rightarrow> rat" where
  "item_size it = snd (snd (snd it))"

datatype error = MissingDependency | OpenError | RenderError | StatisticsError

text \<open>
  One entry of the detector's geometry list: the corner points \<open>(x, y)\<close> of a symbol,
  or a value on which the slicing \<open>pts[:, 1]\<close> raises.
\<close>

datatype geometry = Corners "(rat \<times> rat) list" | Malformed

text \<open>
  What \<open>detector.detectAndDecodeMulti\<close> does on a bitmap: it raises, or returns a
  4-tuple \<open>(retval, infos, pts, _)\<close>, a 3-tuple \<open>(infos, pts, _)\<close>, or something else.
  \<open>None\<close> stands for Python's \<open>None\<close>.
\<close>

datatype detect_result =
    DetectRaises
  | Tuple4 bool "pystr list option" "geometry list option"
  | Tuple3 "pystr list option" "geometry list option"
  | OtherResult

text \<open>
  A page of the opened document: \<open>page.get_pixmap\<close> raises, or the page renders to a
  bitmap, identified here with what the detector answers on it.
\<close>

datatype page = RenderFails | Rendered detect_result

section \<open>Strings\<close>

text \<open>The code points for which \<open>str.isspace\<close> holds (CPython's whitespace table).\<close>

definition is_space :: "nat \<Rightarrow> bool" where
  "is_space c \<longleftrightarrow>
     (9 \<le> c \<and> c \<le> 13) \<or> (28 \<le> c \<and> c \<le> 32) \<or> c = 133 \<or> c = 160 \<or> c = 5760 \<or>
     (8192 \<le> c \<and> c \<le> 8202) \<or> c = 8232 \<or> c = 8233 \<or> c = 8239 \<or> c = 8287 \<or>
     c = 12288"

definition strip_with :: "(nat \<Rightarrow> bool) \<Rightarrow> pystr \<Rightarrow> pystr" where
  "strip_with P s = rev (dropWhile P (rev (dropWhile P s)))"

text \<open>\<open>s.strip()\<close> and \<open>s.strip("\n")\<close>.\<close>

definition strip :: "pystr \<Rightarrow> pystr" where
  "strip s = strip_with is_space s"

definition strip_nl :: "pystr \<Rightarrow> pystr" where
  "strip_nl s = strip_with (\<lambda>c. c = 10) s"

text \<open>\<open>sep.join(parts)\<close>.\<close>

fun join :: "pystr \<Rightarrow> pystr list \<Rightarrow> pystr" where
  "join sep [] = []"
| "join sep [p] = p"
| "join sep (p # q # ps) = p @ sep @ join sep (q # ps)"

section \<open>Symbols of a page\<close>

definition mean :: "rat list \<Rightarrow> rat" where
  "mean xs = sum_list xs / of_nat (length xs)"

fun list_max :: "rat list \<Rightarrow> rat" where
  "list_max [] = 0"
| "list_max (x # xs) = fold max xs x"

fun list_min :: "rat list \<Rightarrow> rat" where
  "list_min [] = 0"
| "list_min (x # xs) = fold min xs x"

text \<open>
  The body of the \<open>try\<close> of lines 101 to 106: \<open>(cy, cx, size)\<close>, or the exception that
  makes the loop \<open>continue\<close>. On an empty array \<open>max()\<close> raises.
\<close>

fun measure_pts :: "geometry \<Rightarrow> (rat \<times> rat \<times> rat) option" where
  "measure_pts Malformed = None"
| "measure_pts (Corners []) = None"
| "measure_pts (Corners cs) =
     Some (mean (map snd cs), mean (map fst cs), list_max (map snd cs) - list_min (map snd cs))"

text \<open>The loop over \<open>zip(decoded_info, points)\<close>.\<close>

fun collect_items :: "(pystr \<times> geometry) list \<Rightarrow> item list" where
  "collect_items [] = []"
| "collect_items ((info, pts) # rest) =
     (case measure_pts pts of
        None \<Rightarrow> collect_items rest
      | Some (cy, cx, sz) \<Rightarrow>
          if info \<noteq> [] then (cy, cx, info, sz) # collect_items rest
          else collect_items rest)"

text \<open>Lines 76 to 94: \<open>(decoded_info, points)\<close> after the call of the detector.\<close>

fun normalize :: "detect_result \<Rightarrow> pystr list \<times> geometry list option" where
  "normalize DetectRaises = ([], None)"
| "normalize (Tuple4 retval infos pts) =
     (if retval \<and> infos \<noteq> None \<and> pts \<noteq> None then (the infos, pts) else ([], None))"
| "normalize (Tuple3 infos pts) =
     (if infos \<noteq> None \<and> pts \<noteq> None then (the infos, pts) else ([], None))"
| "normalize OtherResult = ([], None)"

text \<open>Lines 96 to 108.\<close>

definition build_items :: "pystr list \<Rightarrow> geometry list option \<Rightarrow> item list" where
  "build_items decoded_info points =
     (case points of
        None \<Rightarrow> []
      | Some ps \<Rightarrow>
          if length decoded_info = length ps then collect_items (zip decoded_info ps)
          else [])"

section \<open>Clustering into lines\<close>

text \<open>\<open>statistics.median\<close>: it raises on no data.\<close>

definition median :: "rat list \<Rightarrow> error + rat" where
  "median data =
     (let s = sort data; n = length s in
      if n = 0 then Inl StatisticsError
      else if n mod 2 = 1 then Inr (s ! (n div 2))
      else Inr ((s ! (n div 2 - 1) + s ! (n div 2)) / 2))"

definition median_h :: "item list \<Rightarrow> error + rat" where
  "median_h items = (if items \<noteq> [] then median (map item_size items) else Inr 20)"

definition y_threshold :: "item list \<Rightarrow> error + rat" where
  "y_threshold items =
     (case median_h items of Inl e \<Rightarrow> Inl e | Inr m \<Rightarrow> Inr (max 5 (6 / 10 * m)))"

record cluster_state =
  lines :: "item list list"
  current_line :: "item list"
  current_y :: "rat option"

definition cluster_init :: cluster_state where
  "cluster_init = \<lparr>lines = [], current_line = [], current_y = None\<rparr>"

text \<open>One round of the loop of lines 127 to 141.\<close>

definition cluster_step :: "rat \<Rightarrow> cluster_state \<Rightarrow> item \<Rightarrow> cluster_state" where
  "cluster_step thr st it =
     (let y = item_y it in
      case current_y st of
        None \<Rightarrow> st\<lparr>current_line := [it], current_y := Some y\<rparr>
      | Some c \<Rightarrow>
          if \<bar>y - c\<bar> \<le> thr
          then st\<lparr>current_line := current_line st @ [it],
                  current_y := Some (c * (7 / 10) + y * (3 / 10))\<rparr>
          else st\<lparr>lines := lines st @ [sort_key item_x (current_line st)],
                  current_line := [it], current_y := Some y\<rparr>)"

definition cluster_loop :: "rat \<Rightarrow> item list \<Rightarrow> cluster_state" where
  "cluster_loop thr items = foldl (cluster_step thr) cluster_init items"

text \<open>Lines 123 to 145: the sort, the loop and the last line.\<close>

definition cluster :: "rat \<Rightarrow> item list \<Rightarrow> item list list" where
  "cluster thr items =
     (let st = cluster_loop thr (sort_key (\<lambda>t. (item_y t, item_x t)) items) in
      if current_line st \<noteq> [] then lines st @ [sort_key item_x (current_line st)]
      else lines st)"

text \<open>Lines 76 to 147 for one rendered page: the lines appended to \<open>lines_all_pages\<close>.\<close>

definition cluster_page :: "detect_result \<Rightarrow> error + item list list" where
  "cluster_page d =
     (let (decoded_info, points) = normalize d;
          items = build_items decoded_info points in
      if items = [] then Inr []
      else case y_threshold items of
             Inl e \<Rightarrow> Inl e
           | Inr thr \<Rightarrow> Inr (cluster thr items))"

text \<open>The loop over the pages of the document; a page that fails to render raises.\<close>

fun render_pages :: "item list list list \<Rightarrow> page list \<Rightarrow> error + item list list list" where
  "render_pages lines_all_pages [] = Inr lines_all_pages"
| "render_pages lines_all_pages (RenderFails # ps) = Inl RenderError"
| "render_pages lines_all_pages (Rendered d # ps) =
     (case cluster_page d of
        Inl e \<Rightarrow> Inl e
      | Inr ls \<Rightarrow> render_pages (lines_all_pages @ [ls]) ps)"

section \<open>Paragraph reconstruction\<close>

text \<open>The state of lines 150 to 167 is \<open>(paragraphs, current)\<close>.\<close>

type_synonym para_state = "pystr list \<times> pystr list"

definition flush :: "pystr list \<Rightarrow> pystr list \<Rightarrow> pystr list" where
  "flush paragraphs current =
     (let paragraph = strip (concat current) in
      if paragraph \<noteq> [] then paragraphs @ [paragraph] else paragraphs)"

definition feed :: "para_state \<Rightarrow> pystr \<Rightarrow> para_state" where
  "feed st ch =
     (if ch = PLUS then (flush (fst st) (snd st), [])
      else (fst st, snd st @ [ch]))"

definition scan_line :: "para_state \<Rightarrow> item list \<Rightarrow> para_state" where
  "scan_line st line = foldl feed st (map item_text line)"

definition scan_page :: "para_state \<Rightarrow> item list list \<Rightarrow> para_state" where
  "scan_page st page_lines = (if page_lines = [] then st else foldl scan_line st page_lines)"

text \<open>\<open>(paragraphs, current)\<close> when the loop of lines 153 to 167 is left.\<close>

definition scan_state :: "item list list list \<Rightarrow> para_state" where
  "scan_state lines_all_pages = foldl scan_page ([], []) lines_all_pages"

text \<open>The list \<open>paragraphs\<close> when line 174 is reached, after the last flush.\<close>

definition paragraphs_of :: "item list list list \<Rightarrow> pystr list" where
  "paragraphs_of lines_all_pages =
     (let st = scan_state lines_all_pages in flush (fst st) (snd st))"

definition compose :: "item list list list \<Rightarrow> pystr" where
  "compose lines_all_pages = strip_nl (join [10] (paragraphs_of lines_all_pages))"

text \<open>
  The linearized character stream of the specification: the payloads of all pages, line
  by line, each line from left to right.
\<close>

definition stream :: "item list list list \<Rightarrow> pystr list" where
  "stream lines_all_pages =
     concat (map (\<lambda>page_lines. concat (map (map item_text) page_lines)) lines_all_pages)"

section \<open>The two entry points and the program\<close>

text \<open>What \<open>fitz.open\<close> gives on the input path.\<close>

datatype document = OpenFails | Doc "page list"

definition decode_qr_from_pdf :: "bool \<Rightarrow> document \<Rightarrow> error + pystr" where
  "decode_qr_from_pdf deps_available doc =
     (if \<not> deps_available then Inl MissingDependency
      else case doc of
             OpenFails \<Rightarrow> Inl OpenError
           | Doc pages \<Rightarrow>
               (case render_pages [] pages of
                  Inl e \<Rightarrow> Inl e
                | Inr lines_all_pages \<Rightarrow> Inr (compose lines_all_pages)))"

text \<open>
  The direct path. \<open>extract_text_from_pdf\<close> reads the text of every page with PyMuPDF
  and cleans it: \<open>"\r\n"\<close> and \<open>"\r"\<close> become \<open>"\n"\<close>, then every run of whitespace
  is removed.
\<close>

fun replace_crlf :: "pystr \<Rightarrow> pystr" where
  "replace_crlf (c # d # cs) =
     (if c = 13 \<and> d = 10 then 10 # replace_crlf cs else c # replace_crlf (d # cs))"
| "replace_crlf cs = cs"

definition replace_cr :: "pystr \<Rightarrow> pystr" where
  "replace_cr s = map (\<lambda>c. if c = 13 then 10 else c) s"

definition clean_page :: "pystr \<Rightarrow> pystr" where
  "clean_page page_text = strip (filter (\<lambda>c. \<not> is_space c) (replace_cr (replace_crlf page_text)))"

text \<open>
  \<open>re.split(r"\s*\+\s*", s)\<close>: a match is a \<open>"+"\<close> with the whitespace around it.
  \<open>acc\<close> is the piece read so far, \<open>ws\<close> the whitespace after it that a \<open>"+"\<close> may
  still claim, and \<open>skip\<close> holds just after a \<open>"+"\<close>, while whitespace belongs to the
  match.
\<close>

fun re_split_plus :: "bool \<Rightarrow> pystr \<Rightarrow> pystr \<Rightarrow> pystr \<Rightarrow> pystr list" where
  "re_split_plus skip acc ws [] = [acc @ ws]"
| "re_split_plus skip acc ws (c # cs) =
     (if c = 43 then acc # re_split_plus True [] [] cs
      else if is_space c then
        (if skip then re_split_plus True acc ws cs else re_split_plus False acc (ws @ [c]) cs)
      else re_split_plus False (acc @ ws @ [c]) [] cs)"

text \<open>
  \<open>fitz_available\<close>: the import of PyMuPDF succeeds. \<open>text_layer\<close>: the text of each
  page, or \<open>None\<close> when opening the document or reading a page raises.
\<close>

definition extract_text_from_pdf :: "bool \<Rightarrow> pystr list option \<Rightarrow> pystr" where
  "extract_text_from_pdf fitz_available text_layer =
     (if \<not> fitz_available then []
      else case text_layer of
             None \<Rightarrow> []
           | Some texts \<Rightarrow>
               let text_pages = filter (\<lambda>t. t \<noteq> []) (map clean_page texts);
                   all_text = strip (join [32] text_pages) in
               if all_text = [] then []
               else
                 let parts = re_split_plus False [] [] all_text in
                 join [10] (map strip (filter (\<lambda>p. p \<noteq> [] \<and> strip p \<noteq> []) parts)))"

text \<open>
  The world \<open>main\<close> runs in: whether the input path exists, whether PyMuPDF and
  whether numpy and OpenCV can be imported, the text layer of the document, and the
  document as the QR path opens it.
\<close>

record world =
  input_exists :: bool
  fitz_available :: bool
  cv_available :: bool
  text_layer :: "pystr list option"
  doc :: document

text \<open>The exit status and the contents written to the output file, in order.\<close>

record outcome =
  exit_status :: nat
  written :: "pystr list"

definition main :: "world \<Rightarrow> outcome" where
  "main w =
     (if \<not> input_exists w then \<lparr>exit_status = 1, written = []\<rparr>
      else
        let text = extract_text_from_pdf (fitz_available w) (text_layer w) in
        if text = [] then
          (case decode_qr_from_pdf (fitz_available w \<and> cv_available w) (doc w) of
             Inl e \<Rightarrow> \<lparr>exit_status = 2, written = []\<rparr>
           | Inr t \<Rightarrow> \<lparr>exit_status = 0, written = [t]\<rparr>)
        else \<lparr>exit_status = 0, written = [text]\<rparr>)"

section \<open>Concrete inputs\<close>

text \<open>A symbol whose corner points form a square of side \<open>h\<close> with its upper left at \<open>(x, y)\<close>.\<close>

definition square :: "rat \<Rightarrow> rat \<Rightarrow> rat \<Rightarrow> geometry" where
  "square x y h = Corners [(x, y), (x + h, y), (x + h, y + h), (x, y + h)]"

text \<open>
  Scenario A of the specification: eleven symbols on one row, which the detector reports
  in another order than they are read.
\<close>

definition hello_page :: detect_result where
  "hello_page =
     Tuple4 True
       (Some (map (\<lambda>c. [of_char c]) ''WORLD+OLLEH''))
       (Some (map (\<lambda>i. square (30 * i) 0 20) [6, 7, 8, 9, 10, 5, 4, 3, 2, 1, 0]))"

text \<open>
  Two small symbols, one under the other in the first column, beside two large symbols
  on the same row; no two symbols overlap.
\<close>

definition stacked_page :: detect_result where
  "stacked_page =
     Tuple4 True
       (Some [py ''a'', py ''b'', py ''c'', py ''d''])
       (Some [square 0 0 10, square 0 12 10, square 100 0 40, square 200 0 40])"

text \<open>
  What the proofs say of an emitted paragraph: it is not empty, and it is the trimmed
  concatenation of payloads of the stream, none of them the delimiter.
\<close>

definition clean_paragraph :: "pystr set \<Rightarrow> pystr \<Rightarrow> bool" where
  "clean_paragraph S p \<longleftrightarrow>
     p \<noteq> [] \<and> (\<exists>segs. PLUS \<notin> set segs \<and> set segs \<subseteq> S \<and> p = strip (concat segs))"

section \<open>Properties of trimming\<close>

lemma strip_with_subset: "set (strip_with P s) \<subseteq> set s"
proof
  fix x assume "x \<in> set (strip_with P s)"
  then have "x \<in> set (dropWhile P (rev (dropWhile P s)))" by (simp add: strip_with_def)
  then have "x \<in> set (rev (dropWhile P s))" by (rule set_dropWhileD)
  then have "x \<in> set (dropWhile P s)" by simp
  then show "x \<in> set s" by (rule set_dropWhileD)
qed

lemma strip_with_fixed:
  assumes "s = [] \<or> (\<not> P (hd s) \<and> \<not> P (last s))"
  shows "strip_with P s = s"
proof (cases "s = []")
  case True
  then show ?thesis by (simp add: strip_with_def)
next
  case False
  with assms have h: "\<not> P (hd s)" and l: "\<not> P (last s)" by auto
  from False h have "dropWhile P s = s" by (simp add: dropWhile_eq_self_iff)
  moreover from False l have "dropWhile P (rev s) = rev s"
    by (simp add: dropWhile_eq_self_iff hd_rev)
  ultimately show ?thesis by (simp add: strip_with_def)
qed

lemma strip_with_ends:
  assumes "strip_with P s \<noteq> []"
  shows "\<not> P (hd (strip_with P s)) \<and> \<not> P (last (strip_with P s))"
proof -
  let ?t = "dropWhile P s"
  let ?u = "dropWhile P (rev ?t)"
  from assms have u: "?u \<noteq> []" by (simp add: strip_with_def)
  have t: "?t \<noteq> []"
  proof
    assume "?t = []"
    then have "?u = []" by (simp only: rev.simps dropWhile.simps)
    with u show False by simp
  qed
  from u have hu: "\<not> P (hd ?u)" by (rule hd_dropWhile)
  from t have ht: "\<not> P (hd ?t)" by (rule hd_dropWhile)
  have "hd ?t \<in> set (rev ?t)" using t by simp
  then have "last ?u = last (rev ?t)" using ht by (rule dropWhile_last)
  with t have lu: "last ?u = hd ?t" by (simp add: last_rev)
  have "hd (strip_with P s) = last ?u" using u by (simp add: strip_with_def hd_rev)
  moreover have "last (strip_with P s) = hd ?u" using u by (simp add: strip_with_def last_rev)
  ultimately show ?thesis using hu ht lu by simp
qed

lemma strip_with_idem: "strip_with P (strip_with P s) = strip_with P s"
  using strip_with_ends [of P s] strip_with_fixed [of "strip_with P s" P] by blast

section \<open>Properties of the paragraph loop\<close>

lemma scan_line_stream: "foldl scan_line st pl = foldl feed st (concat (map (map item_text) pl))"
  by (induction pl arbitrary: st) (simp_all add: scan_line_def)

lemma scan_page_stream: "scan_page st pl = foldl feed st (concat (map (map item_text) pl))"
  by (simp add: scan_page_def scan_line_stream)

lemma scan_pages_stream: "foldl scan_page st lap = foldl feed st (stream lap)"
  by (induction lap arbitrary: st) (simp_all add: stream_def scan_page_stream)

lemma scan_state_stream: "scan_state lap = foldl feed ([], []) (stream lap)"
  by (simp add: scan_state_def scan_pages_stream)

lemma paragraphs_of_stream:
  "paragraphs_of lap =
     flush (fst (foldl feed ([], []) (stream lap))) (snd (foldl feed ([], []) (stream lap)))"
  by (simp add: paragraphs_of_def scan_state_stream Let_def)

lemma flush_Nil: "flush ps [] = ps"
  by (simp add: flush_def strip_def strip_with_def)

lemma flush_append: "flush ps cur = ps @ flush [] cur"
  by (simp add: flush_def Let_def)

lemma flush_cases:
  "p \<in> set (flush ps cur) \<Longrightarrow> p \<in> set ps \<or> (p = strip (concat cur) \<and> p \<noteq> [])"
  by (auto simp: flush_def Let_def split: if_splits)

lemma feed_no_plus: "PLUS \<notin> set chs \<Longrightarrow> foldl feed (ps, cur) chs = (ps, cur @ chs)"
  by (induction chs arbitrary: cur) (auto simp: feed_def)

lemma feed_prefix:
  "foldl feed (ps, cur) chs =
     (ps @ fst (foldl feed ([], cur) chs), snd (foldl feed ([], cur) chs))"
proof (induction chs arbitrary: ps cur)
  case Nil
  then show ?case by simp
next
  case (Cons c chs)
  show ?case
  proof (cases "c = PLUS")
    case True
    have "foldl feed (ps, cur) (c # chs) = foldl feed (flush ps cur, []) chs"
      using True by (simp add: feed_def)
    also have "\<dots> = (flush ps cur @ fst (foldl feed ([], []) chs), snd (foldl feed ([], []) chs))"
      by (rule Cons.IH)
    finally have l: "foldl feed (ps, cur) (c # chs) =
        (ps @ flush [] cur @ fst (foldl feed ([], []) chs), snd (foldl feed ([], []) chs))"
      using flush_append [of ps cur] by simp
    have "foldl feed ([], cur) (c # chs) = foldl feed (flush [] cur, []) chs"
      using True by (simp add: feed_def)
    also have "\<dots> = (flush [] cur @ fst (foldl feed ([], []) chs), snd (foldl feed ([], []) chs))"
      by (rule Cons.IH)
    finally show ?thesis using l by simp
  next
    case False
    then show ?thesis using Cons.IH [of ps "cur @ [c]"] by (simp add: feed_def)
  qed
qed

lemma feed_ends_plus:
  assumes "chs = [] \<or> last chs = PLUS"
  shows "snd (foldl feed st chs) = (if chs = [] then snd st else [])"
proof (cases "chs = []")
  case True
  then show ?thesis by simp
next
  case False
  with assms have "chs = butlast chs @ [PLUS]" by (metis append_butlast_last_id)
  then have "foldl feed st chs = feed (foldl feed st (butlast chs)) PLUS"
    by (metis foldl_append foldl_Cons foldl_Nil)
  then show ?thesis using False by (simp add: feed_def)
qed

lemma feed_invariant:
  assumes "\<forall>p\<in>set (fst st). clean_paragraph S p"
    and "PLUS \<notin> set (snd st)" and "set (snd st) \<subseteq> S" and "set chs \<subseteq> S"
  shows "(\<forall>p\<in>set (fst (foldl feed st chs)). clean_paragraph S p) \<and>
         PLUS \<notin> set (snd (foldl feed st chs)) \<and> set (snd (foldl feed st chs)) \<subseteq> S"
  using assms
proof (induction chs arbitrary: st)
  case Nil
  then show ?case by simp
next
  case (Cons c chs)
  have step: "(\<forall>p\<in>set (fst (feed st c)). clean_paragraph S p) \<and>
      PLUS \<notin> set (snd (feed st c)) \<and> set (snd (feed st c)) \<subseteq> S"
  proof (cases "c = PLUS")
    case True
    have "clean_paragraph S p" if "p \<in> set (flush (fst st) (snd st))" for p
      using flush_cases [OF that] Cons.prems(1,2,3) by (auto simp: clean_paragraph_def)
    then show ?thesis using True by (simp add: feed_def)
  next
    case False
    then show ?thesis using Cons.prems by (simp add: feed_def)
  qed
  have "set chs \<subseteq> S" using Cons.prems(4) by simp
  with step Cons.IH [of "feed st c"] show ?case by simp
qed

lemma paragraphs_clean:
  assumes "p \<in> set (paragraphs_of lap)"
  shows "clean_paragraph (set (stream lap)) p"
proof -
  let ?st = "foldl feed ([], []) (stream lap)"
  have inv: "(\<forall>p\<in>set (fst ?st). clean_paragraph (set (stream lap)) p) \<and>
         PLUS \<notin> set (snd ?st) \<and> set (snd ?st) \<subseteq> set (stream lap)"
    by (rule feed_invariant) simp_all
  from assms have "p \<in> set (flush (fst ?st) (snd ?st))" by (simp add: paragraphs_of_stream)
  from flush_cases [OF this] inv show ?thesis by (auto simp: clean_paragraph_def)
qed


lemma is_space_plus: "\<not> is_space 43"
  by (simp add: is_space_def)

lemma strip_idem: "strip (strip s) = strip s"
  by (simp add: strip_def strip_with_idem)

lemma strip_subset: "set (strip s) \<subseteq> set s"
  by (simp add: strip_def strip_with_subset)

lemma single_chars_no_plus:
  assumes "PLUS \<notin> set segs" and "\<forall>ch\<in>set segs. length ch = 1"
  shows "43 \<notin> set (concat segs)"
proof
  assume "43 \<in> set (concat segs)"
  then obtain ch where ch: "ch \<in> set segs" "43 \<in> set ch" by auto
  with assms(2) have "length ch = 1" by simp
  then obtain c where "ch = [c]" by (cases ch) auto
  with ch(2) have "ch = PLUS" by (simp add: PLUS_def)
  with ch(1) assms(1) show False by simp
qed

lemma double_plus: "feed (feed st PLUS) PLUS = feed st PLUS"
  by (simp add: feed_def flush_Nil)

text \<open>The equations that evaluate the reconstruction on a concrete input.\<close>

lemmas para_eval = paragraphs_of_def scan_state_def scan_page_def scan_line_def feed_def
  flush_def strip_def strip_with_def is_space_def item_text_def PLUS_def py_def Let_def
  stream_def

section \<open>The claims on paragraph reconstruction\<close>

text \<open>
  C1. Every paragraph that the reconstruction emits is non-empty and unchanged by
  trimming, and is the trimmed concatenation of payloads of the stream none of which is
  the delimiter \<open>"+"\<close>; when every payload is a single character, the character \<open>+\<close>
  does not occur in it. Two consecutive delimiters give the same paragraphs as one: no
  empty paragraph stands between them.
\<close>

theorem paragraphs_free_of_delimiter:
  "(\<forall>p\<in>set (paragraphs_of lap).
      p \<noteq> [] \<and> strip p = p \<and>
      (\<exists>segs. PLUS \<notin> set segs \<and> set segs \<subseteq> set (stream lap) \<and> p = strip (concat segs)) \<and>
      ((\<forall>ch\<in>set (stream lap). length ch = 1) \<longrightarrow> 43 \<notin> set p)) \<and>
   (stream lap = pre @ [PLUS, PLUS] @ post \<and> stream lap' = pre @ [PLUS] @ post \<longrightarrow>
      paragraphs_of lap = paragraphs_of lap')"
proof (intro conjI ballI impI)
  fix p assume p: "p \<in> set (paragraphs_of lap)"
  from paragraphs_clean [OF p] obtain segs where
    ne: "p \<noteq> []" and segs: "PLUS \<notin> set segs" "set segs \<subseteq> set (stream lap)"
    "p = strip (concat segs)"
    by (auto simp: clean_paragraph_def)
  show "p \<noteq> []" by (rule ne)
  show "strip p = p" using segs(3) strip_idem by simp
  show "\<exists>segs. PLUS \<notin> set segs \<and> set segs \<subseteq> set (stream lap) \<and> p = strip (concat segs)"
    using segs by blast
  assume "\<forall>ch\<in>set (stream lap). length ch = 1"
  with segs(2) have "\<forall>ch\<in>set segs. length ch = 1" by blast
  with segs(1) have "43 \<notin> set (concat segs)" by (rule single_chars_no_plus)
  with strip_subset [of "concat segs"] segs(3) show "43 \<notin> set p" by blast
next
  assume a: "stream lap = pre @ [PLUS, PLUS] @ post \<and> stream lap' = pre @ [PLUS] @ post"
  have "foldl feed ([], []) (stream lap) = foldl feed ([], []) (stream lap')"
    using a by (simp add: double_plus)
  then show "paragraphs_of lap = paragraphs_of lap'" by (simp add: paragraphs_of_stream)
qed


text \<open>The stream \<open>a, +, +, b\<close> gives the paragraphs \<open>a\<close> and \<open>b\<close>.\<close>

theorem paragraphs_free_of_delimiter_witness:
  "paragraphs_of [[[(0, 0, py ''a'', 1), (0, 1, PLUS, 1), (0, 2, PLUS, 1), (0, 3, py ''b'', 1)]]]
     = [py ''a'', py ''b''] \<and>
   py ''a'' \<noteq> [] \<and> strip (py ''a'') = py ''a'' \<and> 43 \<notin> set (py ''a'') \<and>
   43 \<notin> set (py ''b'') \<and>
   paragraphs_of [[[(0, 0, py ''a'', 1), (0, 1, PLUS, 1), (0, 2, PLUS, 1), (0, 3, py ''b'', 1)]]]
     = paragraphs_of [[[(0, 0, py ''a'', 1), (0, 1, PLUS, 1), (0, 3, py ''b'', 1)]]]"
proof -
  let ?lap = "[[[(0, 0, py ''a'', 1), (0, 1, PLUS, 1), (0, 2, PLUS, 1), (0, 3, py ''b'', 1)]]]
    :: item list list list"
  let ?lap' = "[[[(0, 0, py ''a'', 1), (0, 1, PLUS, 1), (0, 3, py ''b'', 1)]]]
    :: item list list list"
  have ps: "paragraphs_of ?lap = [py ''a'', py ''b'']"
    by (simp add: para_eval)
  have s1: "stream ?lap = [py ''a''] @ [PLUS, PLUS] @ [py ''b'']"
    by (simp add: stream_def item_text_def)
  have s2: "stream ?lap' = [py ''a''] @ [PLUS] @ [py ''b'']"
    by (simp add: stream_def item_text_def)
  have single: "\<forall>ch\<in>set (stream ?lap). length ch = 1"
    by (simp add: stream_def item_text_def py_def PLUS_def)
  note th = paragraphs_free_of_delimiter [of ?lap "[py ''a'']" "[py ''b'']" ?lap']
  from th s1 s2 have e: "paragraphs_of ?lap = paragraphs_of ?lap'" by blast
  have "py ''a'' \<in> set (paragraphs_of ?lap)" "py ''b'' \<in> set (paragraphs_of ?lap)"
    using ps by simp_all
  with th single have "py ''a'' \<noteq> [] \<and> strip (py ''a'') = py ''a'' \<and> 43 \<notin> set (py ''a'')"
    and "43 \<notin> set (py ''b'')" by blast+
  with ps e show ?thesis by blast
qed

text \<open>
  C2. When the stream ends without a trailing delimiter (it is \<open>pre @ rest\<close>, where
  \<open>pre\<close> is empty or ends with the delimiter and \<open>rest\<close> holds none), the accumulator
  is \<open>rest\<close> when the loop is left, and if \<open>rest\<close> is not empty after trimming it is
  emitted as the final paragraph, after the paragraphs of \<open>pre\<close>. The stream
  \<open>H,E,L,L,O,+,W,O,R,L,D\<close> gives the paragraphs \<open>HELLO\<close> and \<open>WORLD\<close> and the output
  \<open>HELLO\nWORLD\<close>.
\<close>

theorem final_paragraph_without_trailing_delimiter:
  "(stream lap = pre @ rest \<and> (pre = [] \<or> last pre = PLUS) \<and> PLUS \<notin> set rest \<and>
      strip (concat rest) \<noteq> [] \<longrightarrow>
      scan_state lap = (fst (scan_state lap), rest) \<and>
      paragraphs_of lap \<noteq> [] \<and> last (paragraphs_of lap) = strip (concat rest) \<and>
      (\<forall>lap'. stream lap' = pre \<longrightarrow>
         paragraphs_of lap = paragraphs_of lap' @ [strip (concat rest)])) \<and>
   (stream lap = map (\<lambda>c. [of_char c]) ''HELLO+WORLD'' \<longrightarrow>
      paragraphs_of lap = [py ''HELLO'', py ''WORLD''] \<and>
      compose lap = py ''HELLO'' @ [10] @ py ''WORLD'')"
proof (intro conjI impI)
  assume a: "stream lap = pre @ rest \<and> (pre = [] \<or> last pre = PLUS) \<and> PLUS \<notin> set rest \<and>
      strip (concat rest) \<noteq> []"
  let ?s = "foldl feed ([], []) pre"
  have cur: "snd ?s = []" using a feed_ends_plus [of pre "([], [])"] by simp
  have "foldl feed ([], []) (pre @ rest) = foldl feed (fst ?s, snd ?s) rest" by simp
  also have "\<dots> = (fst ?s, snd ?s @ rest)" using a by (intro feed_no_plus) simp
  finally have st: "scan_state lap = (fst ?s, rest)" using a cur by (simp add: scan_state_stream)
  then show "scan_state lap = (fst (scan_state lap), rest)" by simp
  have ps: "paragraphs_of lap = fst ?s @ [strip (concat rest)]"
    using st a by (simp add: paragraphs_of_def flush_def)
  then show "paragraphs_of lap \<noteq> []" by simp
  show "last (paragraphs_of lap) = strip (concat rest)" using ps by simp
  show "\<forall>lap'. stream lap' = pre \<longrightarrow> paragraphs_of lap = paragraphs_of lap' @ [strip (concat rest)]"
  proof (intro allI impI)
    fix lap' assume "stream lap' = pre"
    then have "paragraphs_of lap' = fst ?s" using cur by (simp add: paragraphs_of_stream flush_Nil)
    with ps show "paragraphs_of lap = paragraphs_of lap' @ [strip (concat rest)]" by simp
  qed
next
  assume h: "stream lap = map (\<lambda>c. [of_char c]) ''HELLO+WORLD''"
  then show ps: "paragraphs_of lap = [py ''HELLO'', py ''WORLD'']"
    by (simp add: paragraphs_of_stream feed_def flush_def strip_def strip_with_def is_space_def
        PLUS_def py_def)
  show "compose lap = py ''HELLO'' @ [10] @ py ''WORLD''"
    unfolding compose_def ps by (simp add: strip_nl_def strip_with_def py_def)
qed

text \<open>The clustering of the page of scenario A: one line, read from left to right.\<close>

lemma hello_lines:
  "cluster_page hello_page = Inr [[
     (10, 10, py ''H'', 20), (10, 40, py ''E'', 20), (10, 70, py ''L'', 20),
     (10, 100, py ''L'', 20), (10, 130, py ''O'', 20), (10, 160, py ''+'', 20),
     (10, 190, py ''W'', 20), (10, 220, py ''O'', 20), (10, 250, py ''R'', 20),
     (10, 280, py ''L'', 20), (10, 310, py ''D'', 20)]]"
  by (simp add: cluster_page_def hello_page_def square_def build_items_def mean_def
      y_threshold_def median_h_def median_def item_size_def cluster_def cluster_loop_def
      cluster_step_def cluster_init_def item_y_def item_x_def py_def Let_def)

text \<open>Scenario A through the whole of \<open>decode_qr_from_pdf\<close>.\<close>

theorem final_paragraph_without_trailing_delimiter_witness:
  "decode_qr_from_pdf True (Doc [Rendered hello_page]) = Inr (py ''HELLO'' @ [10] @ py ''WORLD'') \<and>
   (\<exists>lap. render_pages [] [Rendered hello_page] = Inr lap \<and>
      stream lap = map (\<lambda>c. [of_char c]) ''HELLO+'' @ map (\<lambda>c. [of_char c]) ''WORLD'' \<and>
      paragraphs_of lap = [py ''HELLO'', py ''WORLD''] \<and>
      last (paragraphs_of lap) = strip (concat (map (\<lambda>c. [of_char c]) ''WORLD'')))"
proof -
  obtain lap where r: "render_pages [] [Rendered hello_page] = Inr lap"
    and s: "stream lap = map (\<lambda>c. [of_char c]) ''HELLO+'' @ map (\<lambda>c. [of_char c]) ''WORLD''"
    by (simp add: hello_lines stream_def item_text_def py_def)
  note th = final_paragraph_without_trailing_delimiter
    [of lap "map (\<lambda>c. [of_char c]) ''HELLO+''" "map (\<lambda>c. [of_char c]) ''WORLD''"]
  have h1: "last (map (\<lambda>c. [of_char c]) ''HELLO+'') = PLUS" by (simp add: PLUS_def)
  have h2: "PLUS \<notin> set (map (\<lambda>c. [of_char c]) ''WORLD'')" by (simp add: PLUS_def)
  have h3: "strip (concat (map (\<lambda>c. [of_char c]) ''WORLD'')) \<noteq> []"
    by (simp add: strip_def strip_with_def is_space_def)
  have s': "stream lap = map (\<lambda>c. [of_char c]) ''HELLO+WORLD''" using s by simp
  from th s h1 h2 h3 have l: "last (paragraphs_of lap) = strip (concat (map (\<lambda>c. [of_char c]) ''WORLD''))"
    by blast
  from th s' have p: "paragraphs_of lap = [py ''HELLO'', py ''WORLD'']"
    and c: "compose lap = py ''HELLO'' @ [10] @ py ''WORLD''" by blast+
  have "decode_qr_from_pdf True (Doc [Rendered hello_page]) = Inr (py ''HELLO'' @ [10] @ py ''WORLD'')"
    using r c by (simp add: decode_qr_from_pdf_def)
  with r s l p show ?thesis by blast
qed

text \<open>
  C10. A payload ends the paragraph exactly when it is the one-character string \<open>"+"\<close>:
  reading one more payload \<open>ch\<close> flushes and resets the accumulator if \<open>ch\<close> is \<open>"+"\<close>,
  and appends \<open>ch\<close> unchanged otherwise. A payload of more than one character is always
  appended, so one that contains the character \<open>+\<close> appears inside an emitted
  paragraph and in the output.
\<close>

theorem delimiter_is_exactly_plus:
  "(stream lap' = stream lap @ [ch] \<longrightarrow>
      scan_state lap' =
        (if ch = PLUS then (flush (fst (scan_state lap)) (snd (scan_state lap)), [])
         else (fst (scan_state lap), snd (scan_state lap) @ [ch]))) \<and>
   (stream lap' = stream lap @ [ch] \<and> 1 < length ch \<longrightarrow>
      scan_state lap' = (fst (scan_state lap), snd (scan_state lap) @ [ch])) \<and>
   (stream lap = [ch] \<and> 1 < length ch \<and> 43 \<in> set ch \<and>
      \<not> is_space (hd ch) \<and> \<not> is_space (last ch) \<longrightarrow>
      paragraphs_of lap = [ch] \<and> 43 \<in> set (compose lap))"
proof (intro conjI impI)
  assume a: "stream lap' = stream lap @ [ch]"
  then show "scan_state lap' =
        (if ch = PLUS then (flush (fst (scan_state lap)) (snd (scan_state lap)), [])
         else (fst (scan_state lap), snd (scan_state lap) @ [ch]))"
    by (simp add: scan_state_stream feed_def)
next
  assume a: "stream lap' = stream lap @ [ch] \<and> 1 < length ch"
  then have "ch \<noteq> PLUS" by (auto simp: PLUS_def)
  with a show "scan_state lap' = (fst (scan_state lap), snd (scan_state lap) @ [ch])"
    by (simp add: scan_state_stream feed_def)
next
  assume a: "stream lap = [ch] \<and> 1 < length ch \<and> 43 \<in> set ch \<and>
      \<not> is_space (hd ch) \<and> \<not> is_space (last ch)"
  then have ne: "ch \<noteq> PLUS" "ch \<noteq> []" by (auto simp: PLUS_def)
  have "strip ch = ch" unfolding strip_def using a by (intro strip_with_fixed) simp
  with a ne show ps: "paragraphs_of lap = [ch]"
    by (simp add: paragraphs_of_stream feed_def flush_def)
  have "is_space 10" by (simp add: is_space_def)
  with a have "hd ch \<noteq> 10" "last ch \<noteq> 10" by auto
  then have "strip_nl ch = ch" unfolding strip_nl_def by (intro strip_with_fixed) simp
  then show "43 \<in> set (compose lap)" using a by (simp add: compose_def ps)
qed

text \<open>The payload \<open>b+c\<close> is kept; the payload \<open>+\<close> ends the paragraph \<open>a\<close>.\<close>

theorem delimiter_is_exactly_plus_witness:
  "scan_state [[[(0, 0, py ''a'', 1), (0, 1, py ''b+c'', 1)]]] = ([], [py ''a'', py ''b+c'']) \<and>
   scan_state [[[(0, 0, py ''a'', 1), (0, 1, py ''+'', 1)]]] = ([py ''a''], []) \<and>
   paragraphs_of [[[(0, 0, py ''b+c'', 1)]]] = [py ''b+c''] \<and>
   43 \<in> set (compose [[[(0, 0, py ''b+c'', 1)]]])"
proof -
  let ?a = "[[[(0, 0, py ''a'', 1)]]] :: item list list list"
  let ?l1 = "[[[(0, 0, py ''a'', 1), (0, 1, py ''b+c'', 1)]]] :: item list list list"
  let ?l2 = "[[[(0, 0, py ''a'', 1), (0, 1, py ''+'', 1)]]] :: item list list list"
  let ?l3 = "[[[(0, 0, py ''b+c'', 1)]]] :: item list list list"
  have sa: "scan_state ?a = ([], [py ''a''])" by (simp add: para_eval)
  have s1: "stream ?l1 = stream ?a @ [py ''b+c''] \<and> 1 < length (py ''b+c'')"
    by (simp add: stream_def item_text_def py_def)
  have s2: "stream ?l2 = stream ?a @ [py ''+'']" by (simp add: stream_def item_text_def)
  have s3: "stream ?l3 = [py ''b+c''] \<and> 1 < length (py ''b+c'') \<and> 43 \<in> set (py ''b+c'') \<and>
      \<not> is_space (hd (py ''b+c'')) \<and> \<not> is_space (last (py ''b+c''))"
    by (simp add: stream_def item_text_def py_def is_space_def)
  have plus: "py ''+'' = PLUS" by (simp add: py_def PLUS_def)
  have f: "flush [] [py ''a''] = [py ''a'']" by (simp add: para_eval)
  from delimiter_is_exactly_plus [of ?l1 ?a "py ''b+c''"] s1
  have "scan_state ?l1 = (fst (scan_state ?a), snd (scan_state ?a) @ [py ''b+c''])" by blast
  with sa have r1: "scan_state ?l1 = ([], [py ''a'', py ''b+c''])" by simp
  from delimiter_is_exactly_plus [of ?l2 ?a "py ''+''"] s2
  have "scan_state ?l2 =
        (if py ''+'' = PLUS then (flush (fst (scan_state ?a)) (snd (scan_state ?a)), [])
         else (fst (scan_state ?a), snd (scan_state ?a) @ [py ''+'']))" by blast
  with sa plus f have r2: "scan_state ?l2 = ([py ''a''], [])" by simp
  from delimiter_is_exactly_plus [of _ ?l3 "py ''b+c''"] s3
  have r3: "paragraphs_of ?l3 = [py ''b+c''] \<and> 43 \<in> set (compose ?l3)" by blast
  from r1 r2 r3 show ?thesis by blast
qed

section \<open>The claims on clustering\<close>

text \<open>\<open>statistics.median\<close> returns a number on every non-empty list.\<close>

lemma median_nonempty:
  assumes "data \<noteq> []"
  shows "\<exists>m. median data = Inr m"
proof -
  let ?s = "sort data" and ?n = "length data"
  have ne: "sort data \<noteq> []" using assms by (metis length_0_conv length_sort)
  have "median data =
      Inr (if ?n mod 2 = 1 then ?s ! (?n div 2) else (?s ! (?n div 2 - 1) + ?s ! (?n div 2)) / 2)"
    using ne by (simp add: median_def Let_def)
  then show ?thesis by (rule exI)
qed








text \<open>Every line the clusterer closes is sorted by \<open>x\<close>.\<close>

lemma cluster_step_sorted:
  assumes "\<forall>l\<in>set (lines st). sorted (map item_x l)"
  shows "\<forall>l\<in>set (lines (cluster_step thr st it)). sorted (map item_x l)"
  using assms by (auto simp: cluster_step_def Let_def split: option.split)

lemma foldl_cluster_step_sorted:
  assumes "\<forall>l\<in>set (lines st). sorted (map item_x l)"
  shows "\<forall>l\<in>set (lines (foldl (cluster_step thr) st items)). sorted (map item_x l)"
  using assms
proof (induction items arbitrary: st)
  case Nil
  then show ?case by simp
next
  case (Cons it items)
  from Cons.prems have "\<forall>l\<in>set (lines (cluster_step thr st it)). sorted (map item_x l)"
    by (rule cluster_step_sorted)
  then show ?case using Cons.IH by simp
qed

lemma cluster_sorted:
  assumes "l \<in> set (cluster thr items)"
  shows "sorted (map item_x l)"
proof -
  let ?st = "cluster_loop thr (sort_key (\<lambda>t. (item_y t, item_x t)) items)"
  have inv: "\<forall>l\<in>set (lines ?st). sorted (map item_x l)"
    unfolding cluster_loop_def by (rule foldl_cluster_step_sorted) (simp add: cluster_init_def)
  from assms have "l \<in> set (lines ?st) \<or> l = sort_key item_x (current_line ?st)"
    by (auto simp: cluster_def Let_def split: if_splits)
  with inv show ?thesis by auto
qed

lemma cluster_page_cases:
  assumes "cluster_page d = Inr ls" and "l \<in> set ls"
  shows "\<exists>thr items. l \<in> set (cluster thr items)"
  using assms
  by (auto simp: cluster_page_def Let_def split_beta split: if_splits sum.splits)

text \<open>
  The page of the stacked symbols: the median height is 25 and the threshold 15, so that
  all four symbols fall into one line.
\<close>

lemma stacked_lines:
  "cluster_page stacked_page
     = Inr [[(5, 5, py ''a'', 10), (17, 5, py ''b'', 10), (20, 120, py ''c'', 40),
             (20, 220, py ''d'', 40)]]"
  by (simp add: cluster_page_def stacked_page_def square_def build_items_def mean_def
      y_threshold_def median_h_def median_def item_size_def cluster_def cluster_loop_def
      cluster_step_def cluster_init_def item_y_def item_x_def py_def Let_def)

text \<open>
  C5, as the code has it. Two symbols of a line can share their \<open>x\<close>: on the page of the
  stacked symbols the two small ones have the same centroid \<open>x\<close> and stand in one line.
\<close>

theorem line_not_strictly_ordered:
  "cluster_page stacked_page
     = Inr [[(5, 5, py ''a'', 10), (17, 5, py ''b'', 10), (20, 120, py ''c'', 40),
             (20, 220, py ''d'', 40)]] \<and>
   \<not> sorted_wrt (<) (map item_x [(5, 5, py ''a'', 10), (17, 5, py ''b'', 10),
        (20, 120, py ''c'', 40), (20, 220, py ''d'', 40)])"
  using stacked_lines by (simp add: item_x_def)

text \<open>
  C5, amended. In every line that the clusterer emits for a page the symbols are in
  non-decreasing order of \<open>x\<close>; the order is strict when no two symbols of the line share
  their \<open>x\<close>.
\<close>

theorem line_ordered_by_x:
  "cluster_page d = Inr ls \<longrightarrow>
     (\<forall>line\<in>set ls. sorted (map item_x line) \<and>
        (distinct (map item_x line) \<longrightarrow> sorted_wrt (<) (map item_x line)))"
proof (intro impI ballI)
  fix line assume "cluster_page d = Inr ls" and "line \<in> set ls"
  then obtain thr items where "line \<in> set (cluster thr items)"
    using cluster_page_cases by blast
  then have "sorted (map item_x line)" by (rule cluster_sorted)
  then show "sorted (map item_x line) \<and>
        (distinct (map item_x line) \<longrightarrow> sorted_wrt (<) (map item_x line))"
    by (simp add: strict_sorted_iff)
qed

text \<open>
  The line of scenario A is in strict order; the line of the stacked symbols is in
  non-decreasing order only.
\<close>

theorem line_ordered_by_x_witness:
  "cluster_page hello_page = Inr [[
     (10, 10, py ''H'', 20), (10, 40, py ''E'', 20), (10, 70, py ''L'', 20),
     (10, 100, py ''L'', 20), (10, 130, py ''O'', 20), (10, 160, py ''+'', 20),
     (10, 190, py ''W'', 20), (10, 220, py ''O'', 20), (10, 250, py ''R'', 20),
     (10, 280, py ''L'', 20), (10, 310, py ''D'', 20)]] \<and>
   sorted_wrt (<) (map item_x [
     (10, 10, py ''H'', 20), (10, 40, py ''E'', 20), (10, 70, py ''L'', 20),
     (10, 100, py ''L'', 20), (10, 130, py ''O'', 20), (10, 160, py ''+'', 20),
     (10, 190, py ''W'', 20), (10, 220, py ''O'', 20), (10, 250, py ''R'', 20),
     (10, 280, py ''L'', 20), (10, 310, py ''D'', 20)]) \<and>
   sorted (map item_x [(5, 5, py ''a'', 10), (17, 5, py ''b'', 10), (20, 120, py ''c'', 40),
      (20, 220, py ''d'', 40)])"
proof -
  let ?line = "[
     (10, 10, py ''H'', 20), (10, 40, py ''E'', 20), (10, 70, py ''L'', 20),
     (10, 100, py ''L'', 20), (10, 130, py ''O'', 20), (10, 160, py ''+'', 20),
     (10, 190, py ''W'', 20), (10, 220, py ''O'', 20), (10, 250, py ''R'', 20),
     (10, 280, py ''L'', 20), (10, 310, py ''D'', 20)] :: item list"
  let ?two = "[(5, 5, py ''a'', 10), (17, 5, py ''b'', 10), (20, 120, py ''c'', 40),
      (20, 220, py ''d'', 40)] :: item list"
  have d: "distinct (map item_x ?line)" by (simp add: item_x_def)
  have m: "?line \<in> set [?line]" by simp
  from line_ordered_by_x [of hello_page "[?line]"] hello_lines m
  have "distinct (map item_x ?line) \<longrightarrow> sorted_wrt (<) (map item_x ?line)" by blast
  with d have a: "sorted_wrt (<) (map item_x ?line)" by blast
  have m': "?two \<in> set [?two]" by simp
  from line_ordered_by_x [of stacked_page "[?two]"] stacked_lines m'
  have b: "sorted (map item_x ?two)" by blast
  from hello_lines a b show ?thesis by blast
qed

section \<open>The claims on the symbols of a page\<close>

text \<open>A rendered page never raises: the median is only taken of a non-empty list.\<close>

lemma cluster_page_total: "\<exists>ls. cluster_page d = Inr ls"
proof -
  obtain decoded_info points where n: "normalize d = (decoded_info, points)"
    by (cases "normalize d")
  show ?thesis
  proof (cases "build_items decoded_info points = []")
    case True
    with n show ?thesis by (simp add: cluster_page_def)
  next
    case False
    then obtain m where "median (map item_size (build_items decoded_info points)) = Inr m"
      using median_nonempty [of "map item_size (build_items decoded_info points)"] by auto
    with n False show ?thesis
      by (simp add: cluster_page_def y_threshold_def median_h_def)
  qed
qed

text \<open>The pages already read do not influence the pages still to come.\<close>

lemma render_pages_acc:
  "render_pages acc ps =
     (case render_pages [] ps of Inl e \<Rightarrow> Inl e | Inr r \<Rightarrow> Inr (acc @ r))"
proof (induction ps arbitrary: acc)
  case Nil
  then show ?case by simp
next
  case (Cons p ps)
  show ?case
  proof (cases p)
    case RenderFails
    then show ?thesis by simp
  next
    case (Rendered d)
    obtain ls where ls: "cluster_page d = Inr ls" using cluster_page_total by blast
    have "render_pages acc (p # ps) = render_pages (acc @ [ls]) ps"
      using Rendered ls by simp
    also have "\<dots> = (case render_pages [] ps of Inl e \<Rightarrow> Inl e | Inr r \<Rightarrow> Inr (acc @ [ls] @ r))"
      using Cons.IH [of "acc @ [ls]"] by (simp split: sum.splits)
    finally have l: "render_pages acc (p # ps) =
        (case render_pages [] ps of Inl e \<Rightarrow> Inl e | Inr r \<Rightarrow> Inr (acc @ [ls] @ r))" .
    have "render_pages [] (p # ps) = render_pages [ls] ps" using Rendered ls by simp
    also have "\<dots> = (case render_pages [] ps of Inl e \<Rightarrow> Inl e | Inr r \<Rightarrow> Inr ([ls] @ r))"
      using Cons.IH [of "[ls]"] by simp
    finally show ?thesis using l by (simp split: sum.splits)
  qed
qed

lemma render_pages_append:
  "render_pages acc (ps @ qs) =
     (case render_pages acc ps of Inl e \<Rightarrow> Inl e | Inr r \<Rightarrow> render_pages r qs)"
proof (induction ps arbitrary: acc)
  case Nil
  then show ?case by simp
next
  case (Cons p ps)
  show ?case
  proof (cases p)
    case RenderFails
    then show ?thesis by simp
  next
    case (Rendered d)
    then show ?thesis using Cons.IH by (simp split: sum.splits)
  qed
qed

text \<open>The output depends on the lines only through the stream of their payloads.\<close>

lemma compose_stream: "stream lap = stream lap' \<Longrightarrow> compose lap = compose lap'"
  by (simp add: compose_def paragraphs_of_stream)

lemma stream_empty_page: "stream (xs @ [] # ys) = stream (xs @ ys)"
  by (simp add: stream_def)

text \<open>A page without lines leaves no trace in the result of the QR path.\<close>

lemma decode_skips_empty_page:
  assumes "cluster_page d = Inr []"
  shows "decode_qr_from_pdf deps (Doc (before @ Rendered d # after)) =
         decode_qr_from_pdf deps (Doc (before @ after))"
proof (cases "render_pages [] before")
  case (Inl e)
  then show ?thesis by (simp add: decode_qr_from_pdf_def render_pages_append)
next
  case (Inr r)
  show ?thesis
  proof (cases "render_pages [] after")
    case (Inl e)
    have "render_pages (r @ [[]]) after = Inl e" "render_pages r after = Inl e"
      using Inl render_pages_acc [of "r @ [[]]" after] render_pages_acc [of r after] by simp_all
    then show ?thesis using Inr assms by (simp add: decode_qr_from_pdf_def render_pages_append)
  next
    case a: (Inr r')
    have "render_pages (r @ [[]]) after = Inr (r @ [] # r')" "render_pages r after = Inr (r @ r')"
      using a render_pages_acc [of "r @ [[]]" after] render_pages_acc [of r after] by simp_all
    moreover have "compose (r @ [] # r') = compose (r @ r')"
      by (rule compose_stream) (rule stream_empty_page)
    ultimately show ?thesis
      using Inr assms by (simp add: decode_qr_from_pdf_def render_pages_append)
  qed
qed

text \<open>
  C6. When the payload list and the geometry list of a page differ in length, no payload
  is paired with geometry: the page has no items and no lines, nothing is raised, and
  the result of the QR path is that of the document without the page. This holds for
  both shapes of the detector's answer.
\<close>

theorem unequal_lengths_give_no_symbols:
  "length infos \<noteq> length pts \<longrightarrow>
     build_items infos (Some pts) = [] \<and>
     cluster_page (Tuple4 retval (Some infos) (Some pts)) = Inr [] \<and>
     cluster_page (Tuple3 (Some infos) (Some pts)) = Inr [] \<and>
     decode_qr_from_pdf deps (Doc (before @ Rendered (Tuple4 retval (Some infos) (Some pts)) # after))
       = decode_qr_from_pdf deps (Doc (before @ after)) \<and>
     decode_qr_from_pdf deps (Doc (before @ Rendered (Tuple3 (Some infos) (Some pts)) # after))
       = decode_qr_from_pdf deps (Doc (before @ after))"
proof
  assume a: "length infos \<noteq> length pts"
  then have b: "build_items infos (Some pts) = []" by (simp add: build_items_def)
  have n: "build_items [] None = []" by (simp add: build_items_def)
  from b n have c4: "cluster_page (Tuple4 retval (Some infos) (Some pts)) = Inr []"
    by (simp add: cluster_page_def)
  from b have c3: "cluster_page (Tuple3 (Some infos) (Some pts)) = Inr []"
    by (simp add: cluster_page_def)
  from b c4 c3 decode_skips_empty_page [OF c4] decode_skips_empty_page [OF c3]
  show "build_items infos (Some pts) = [] \<and>
     cluster_page (Tuple4 retval (Some infos) (Some pts)) = Inr [] \<and>
     cluster_page (Tuple3 (Some infos) (Some pts)) = Inr [] \<and>
     decode_qr_from_pdf deps (Doc (before @ Rendered (Tuple4 retval (Some infos) (Some pts)) # after))
       = decode_qr_from_pdf deps (Doc (before @ after)) \<and>
     decode_qr_from_pdf deps (Doc (before @ Rendered (Tuple3 (Some infos) (Some pts)) # after))
       = decode_qr_from_pdf deps (Doc (before @ after))"
    by blast
qed

text \<open>
  Scenario D: three payloads and two geometries on the second page of a document whose
  first page reads \<open>ab\<close>.
\<close>

theorem unequal_lengths_give_no_symbols_witness:
  "length [py ''x'', py ''y'', py ''z''] \<noteq> length [square 0 0 20, square 30 0 20] \<and>
   cluster_page (Tuple4 True (Some [py ''x'', py ''y'', py ''z''])
      (Some [square 0 0 20, square 30 0 20])) = Inr [] \<and>
   decode_qr_from_pdf True (Doc
      [Rendered (Tuple4 True (Some [py ''a'', py ''b'']) (Some [square 0 0 20, square 30 0 20])),
       Rendered (Tuple4 True (Some [py ''x'', py ''y'', py ''z''])
         (Some [square 0 0 20, square 30 0 20]))])
     = Inr (py ''ab'')"
proof -
  let ?good = "Rendered (Tuple4 True (Some [py ''a'', py ''b''])
      (Some [square 0 0 20, square 30 0 20]))"
  have len: "length [py ''x'', py ''y'', py ''z''] \<noteq> length [square 0 0 20, square 30 0 20]"
    by simp
  note th = unequal_lengths_give_no_symbols
    [of "[py ''x'', py ''y'', py ''z'']" "[square 0 0 20, square 30 0 20]" True True
      "[?good]" "[]"]
  have g: "cluster_page (Tuple4 True (Some [py ''a'', py ''b''])
      (Some [square 0 0 20, square 30 0 20]))
      = Inr [[(10, 10, py ''a'', 20), (10, 40, py ''b'', 20)]]"
    by (simp add: cluster_page_def square_def build_items_def mean_def
      y_threshold_def median_h_def median_def item_size_def cluster_def cluster_loop_def
      cluster_step_def cluster_init_def item_y_def item_x_def py_def Let_def)
  have r: "render_pages [] [?good] = Inr [[[(10, 10, py ''a'', 20), (10, 40, py ''b'', 20)]]]"
    by (simp add: g)
  have c: "compose [[[(10, 10, py ''a'', 20), (10, 40, py ''b'', 20)]]] = py ''ab''"
    by (simp add: compose_def para_eval strip_nl_def)
  have "decode_qr_from_pdf True (Doc ([?good] @ [])) = Inr (py ''ab'')"
    using r c by (simp add: decode_qr_from_pdf_def)
  with th len show ?thesis by simp
qed

text \<open>The loop over the pairs reads each pair on its own.\<close>

lemma collect_items_append: "collect_items (xs @ ys) = collect_items xs @ collect_items ys"
  by (induction xs rule: collect_items.induct) (auto split: option.splits)

lemma collect_items_member:
  assumes "(info, g) \<in> set ps" and "measure_pts g = Some (cy, cx, sz)" and "info \<noteq> []"
  shows "(cy, cx, info, sz) \<in> set (collect_items ps)"
proof -
  from assms(1) obtain xs ys where "ps = xs @ (info, g) # ys" by (meson split_list)
  then have "collect_items ps = collect_items xs @ collect_items ((info, g) # ys)"
    by (simp add: collect_items_append)
  with assms(2,3) show ?thesis by simp
qed

lemma measure_pts_None: "measure_pts g = None \<longleftrightarrow> g = Malformed \<or> g = Corners []"
  by (cases g rule: measure_pts.cases) simp_all

text \<open>
  C9. On a page with as many payloads as geometries, a symbol whose corner points make
  the computation of the centroid or of the height raise (the geometry is malformed or
  has no points) is skipped and nothing else: the items and the lines of the page are
  those of the page without that symbol, the page yields its lines without an error, and
  every other symbol with a non-empty payload and a sound geometry is among the items.
\<close>

theorem bad_geometry_skips_one_symbol:
  "(length i1 = length g1 \<and> length i2 = length g2 \<and> (g = Malformed \<or> g = Corners []) \<longrightarrow>
      build_items (i1 @ info # i2) (Some (g1 @ g # g2)) = build_items (i1 @ i2) (Some (g1 @ g2)) \<and>
      cluster_page (Tuple4 True (Some (i1 @ info # i2)) (Some (g1 @ g # g2)))
        = cluster_page (Tuple4 True (Some (i1 @ i2)) (Some (g1 @ g2))) \<and>
      cluster_page (Tuple3 (Some (i1 @ info # i2)) (Some (g1 @ g # g2)))
        = cluster_page (Tuple3 (Some (i1 @ i2)) (Some (g1 @ g2))) \<and>
      (\<exists>ls. cluster_page (Tuple4 True (Some (i1 @ info # i2)) (Some (g1 @ g # g2))) = Inr ls)) \<and>
   (length infos = length pts \<and> (info', g') \<in> set (zip infos pts) \<and>
      measure_pts g' = Some (cy, cx, sz) \<and> info' \<noteq> [] \<longrightarrow>
      (cy, cx, info', sz) \<in> set (build_items infos (Some pts)))"
proof (intro conjI impI)
  assume a: "length i1 = length g1 \<and> length i2 = length g2 \<and> (g = Malformed \<or> g = Corners [])"
  then have m: "measure_pts g = None" by (simp add: measure_pts_None)
  have "zip (i1 @ info # i2) (g1 @ g # g2) = zip i1 g1 @ (info, g) # zip i2 g2"
    using a by simp
  then have "collect_items (zip (i1 @ info # i2) (g1 @ g # g2)) =
      collect_items (zip i1 g1) @ collect_items (zip i2 g2)"
    using m by (simp add: collect_items_append)
  moreover have "collect_items (zip (i1 @ i2) (g1 @ g2)) =
      collect_items (zip i1 g1) @ collect_items (zip i2 g2)"
    using a by (simp add: collect_items_append)
  ultimately show b: "build_items (i1 @ info # i2) (Some (g1 @ g # g2)) =
      build_items (i1 @ i2) (Some (g1 @ g2))"
    using a by (simp add: build_items_def)
  then show "cluster_page (Tuple4 True (Some (i1 @ info # i2)) (Some (g1 @ g # g2)))
        = cluster_page (Tuple4 True (Some (i1 @ i2)) (Some (g1 @ g2)))"
    by (simp add: cluster_page_def)
  from b show "cluster_page (Tuple3 (Some (i1 @ info # i2)) (Some (g1 @ g # g2)))
        = cluster_page (Tuple3 (Some (i1 @ i2)) (Some (g1 @ g2)))"
    by (simp add: cluster_page_def)
  show "\<exists>ls. cluster_page (Tuple4 True (Some (i1 @ info # i2)) (Some (g1 @ g # g2))) = Inr ls"
    by (rule cluster_page_total)
next
  assume a: "length infos = length pts \<and> (info', g') \<in> set (zip infos pts) \<and>
      measure_pts g' = Some (cy, cx, sz) \<and> info' \<noteq> []"
  then have "(cy, cx, info', sz) \<in> set (collect_items (zip infos pts))"
    using collect_items_member by blast
  with a show "(cy, cx, info', sz) \<in> set (build_items infos (Some pts))"
    by (simp add: build_items_def)
qed

text \<open>
  Three symbols on a row; the geometry of the second is malformed. The page reads \<open>ac\<close>,
  as it does without the second symbol.
\<close>

theorem bad_geometry_skips_one_symbol_witness:
  "build_items [py ''a'', py ''b'', py ''c''] (Some [square 0 0 20, Malformed, square 60 0 20])
     = [(10, 10, py ''a'', 20), (10, 70, py ''c'', 20)] \<and>
   cluster_page (Tuple4 True (Some [py ''a'', py ''b'', py ''c''])
       (Some [square 0 0 20, Malformed, square 60 0 20]))
     = Inr [[(10, 10, py ''a'', 20), (10, 70, py ''c'', 20)]] \<and>
   cluster_page (Tuple3 (Some [py ''a'', py ''b'', py ''c''])
       (Some [square 0 0 20, Corners [], square 60 0 20]))
     = Inr [[(10, 10, py ''a'', 20), (10, 70, py ''c'', 20)]] \<and>
   (10, 70, py ''c'', 20)
     \<in> set (build_items [py ''a'', py ''b'', py ''c'']
          (Some [square 0 0 20, Malformed, square 60 0 20]))"
proof -
  let ?a = "square 0 0 20" and ?c = "square 60 0 20"
  have b: "build_items ([py ''a''] @ [py ''c'']) (Some ([?a] @ [?c]))
      = [(10, 10, py ''a'', 20), (10, 70, py ''c'', 20)]"
    by (simp add: build_items_def square_def mean_def py_def)
  have c4: "cluster_page (Tuple4 True (Some ([py ''a''] @ [py ''c''])) (Some ([?a] @ [?c])))
      = Inr [[(10, 10, py ''a'', 20), (10, 70, py ''c'', 20)]]"
    by (simp add: cluster_page_def square_def build_items_def mean_def
      y_threshold_def median_h_def median_def item_size_def cluster_def cluster_loop_def
      cluster_step_def cluster_init_def item_y_def item_x_def py_def Let_def)
  have c3: "cluster_page (Tuple3 (Some ([py ''a''] @ [py ''c''])) (Some ([?a] @ [?c])))
      = Inr [[(10, 10, py ''a'', 20), (10, 70, py ''c'', 20)]]"
    by (simp add: cluster_page_def square_def build_items_def mean_def
      y_threshold_def median_h_def median_def item_size_def cluster_def cluster_loop_def
      cluster_step_def cluster_init_def item_y_def item_x_def py_def Let_def)
  have len: "length [py ''a''] = length [?a] \<and> length [py ''c''] = length [?c]" by simp
  note t1 = bad_geometry_skips_one_symbol
    [of "[py ''a'']" "[?a]" "[py ''c'']" "[?c]" Malformed "py ''b''"
      "[py ''a'', py ''b'', py ''c'']" "[?a, Malformed, ?c]" "py ''c''" ?c 10 70 20]
  note t2 = bad_geometry_skips_one_symbol
    [of "[py ''a'']" "[?a]" "[py ''c'']" "[?c]" "Corners []" "py ''b''"]
  have mem: "length [py ''a'', py ''b'', py ''c''] = length [?a, Malformed, ?c] \<and>
      (py ''c'', ?c) \<in> set (zip [py ''a'', py ''b'', py ''c''] [?a, Malformed, ?c]) \<and>
      measure_pts ?c = Some (10, 70, 20) \<and> py ''c'' \<noteq> []"
    by (simp add: square_def mean_def py_def)
  from t1 len have
    "build_items ([py ''a''] @ py ''b'' # [py ''c'']) (Some ([?a] @ Malformed # [?c]))
       = build_items ([py ''a''] @ [py ''c'']) (Some ([?a] @ [?c]))"
    "cluster_page (Tuple4 True (Some ([py ''a''] @ py ''b'' # [py ''c'']))
         (Some ([?a] @ Malformed # [?c])))
       = cluster_page (Tuple4 True (Some ([py ''a''] @ [py ''c''])) (Some ([?a] @ [?c])))"
    by blast+
  with b c4 have r1:
    "build_items [py ''a'', py ''b'', py ''c''] (Some [?a, Malformed, ?c])
       = [(10, 10, py ''a'', 20), (10, 70, py ''c'', 20)]"
    "cluster_page (Tuple4 True (Some [py ''a'', py ''b'', py ''c'']) (Some [?a, Malformed, ?c]))
       = Inr [[(10, 10, py ''a'', 20), (10, 70, py ''c'', 20)]]"
    by simp_all
  from t2 len have
    "cluster_page (Tuple3 (Some ([py ''a''] @ py ''b'' # [py ''c'']))
         (Some ([?a] @ Corners [] # [?c])))
       = cluster_page (Tuple3 (Some ([py ''a''] @ [py ''c''])) (Some ([?a] @ [?c])))"
    by blast
  with c3 have r2:
    "cluster_page (Tuple3 (Some [py ''a'', py ''b'', py ''c'']) (Some [?a, Corners [], ?c]))
       = Inr [[(10, 10, py ''a'', 20), (10, 70, py ''c'', 20)]]"
    by simp
  from t1 mem have r3: "(10, 70, py ''c'', 20)
     \<in> set (build_items [py ''a'', py ''b'', py ''c''] (Some [?a, Malformed, ?c]))"
    by blast
  from r1 r2 r3 show ?thesis by blast
qed

section \<open>The claims on failures and on the exit status\<close>

text \<open>The call of \<open>get_pixmap\<close> stands outside every \<open>try\<close>: its exception ends the loop.\<close>

lemma render_pages_fails:
  assumes "RenderFails \<in> set pages"
  shows "render_pages acc pages = Inl RenderError"
  using assms
proof (induction pages arbitrary: acc)
  case Nil
  then show ?case by simp
next
  case (Cons p pages)
  show ?case
  proof (cases p)
    case RenderFails
    then show ?thesis by simp
  next
    case (Rendered d)
    obtain ls where "cluster_page d = Inr ls" using cluster_page_total by blast
    moreover from Rendered Cons.prems have "RenderFails \<in> set pages" by simp
    ultimately show ?thesis using Rendered Cons.IH by simp
  qed
qed

text \<open>A page that reads \<open>ab\<close>.\<close>

lemma ab_page_lines:
  "cluster_page (Tuple4 True (Some [py ''a'', py ''b'']) (Some [square 0 0 20, square 30 0 20]))
     = Inr [[(10, 10, py ''a'', 20), (10, 40, py ''b'', 20)]]"
  by (simp add: cluster_page_def square_def build_items_def mean_def
      y_threshold_def median_h_def median_def item_size_def cluster_def cluster_loop_def
      cluster_step_def cluster_init_def item_y_def item_x_def py_def Let_def)

lemma ab_compose: "compose [[[(10, 10, py ''a'', 20), (10, 40, py ''b'', 20)]]] = py ''ab''"
  by (simp add: compose_def para_eval strip_nl_def)

text \<open>
  C7, as the code has it. A document of two pages, the first of which fails to render
  while the second reads \<open>ab\<close>: the QR path returns the error of the first page instead
  of the text of the second, and the program exits with status 2 and writes nothing.
\<close>

theorem render_failure_not_recovered:
  "decode_qr_from_pdf True
      (Doc [RenderFails,
            Rendered (Tuple4 True (Some [py ''a'', py ''b''])
              (Some [square 0 0 20, square 30 0 20]))])
     = Inl RenderError \<and>
   decode_qr_from_pdf True
      (Doc [Rendered (Tuple4 True (Some [py ''a'', py ''b''])
              (Some [square 0 0 20, square 30 0 20]))])
     = Inr (py ''ab'') \<and>
   main \<lparr>input_exists = True, fitz_available = True, cv_available = True,
         text_layer = Some [[], []],
         doc = Doc [RenderFails,
            Rendered (Tuple4 True (Some [py ''a'', py ''b''])
              (Some [square 0 0 20, square 30 0 20]))]\<rparr>
     = \<lparr>exit_status = 2, written = []\<rparr>"
proof -
  have e: "extract_text_from_pdf True (Some [[], []]) = []"
    by (simp add: extract_text_from_pdf_def clean_page_def replace_cr_def strip_def strip_with_def)
  show ?thesis
    by (simp add: decode_qr_from_pdf_def main_def e ab_page_lines ab_compose)
qed

text \<open>
  C7, amended. A failure to render a page is not recovered locally: it ends
  \<open>decode_qr_from_pdf\<close> with that error, whatever the other pages hold, and the program,
  when it has fallen back to the QR path, exits with status 2 without writing a file.
\<close>

theorem render_failure_aborts:
  "RenderFails \<in> set pages \<longrightarrow>
     decode_qr_from_pdf True (Doc pages) = Inl RenderError \<and>
     (\<exists>e. decode_qr_from_pdf deps (Doc pages) = Inl e) \<and>
     (input_exists w \<and> extract_text_from_pdf (fitz_available w) (text_layer w) = [] \<and>
      doc w = Doc pages \<longrightarrow>
        main w = \<lparr>exit_status = 2, written = []\<rparr>)"
proof (intro impI conjI)
  assume "RenderFails \<in> set pages"
  then have r: "render_pages [] pages = Inl RenderError" by (rule render_pages_fails)
  then show "decode_qr_from_pdf True (Doc pages) = Inl RenderError"
    by (simp add: decode_qr_from_pdf_def)
  from r show d: "\<exists>e. decode_qr_from_pdf deps (Doc pages) = Inl e" for deps
    by (simp add: decode_qr_from_pdf_def)
  assume "input_exists w \<and> extract_text_from_pdf (fitz_available w) (text_layer w) = [] \<and>
      doc w = Doc pages"
  then have "input_exists w"
    and "extract_text_from_pdf (fitz_available w) (text_layer w) = []"
    and "doc w = Doc pages" by blast+
  moreover from d obtain e where
    "decode_qr_from_pdf (fitz_available w \<and> cv_available w) (Doc pages) = Inl e" by blast
  ultimately show "main w = \<lparr>exit_status = 2, written = []\<rparr>"
    by (simp add: main_def Let_def)
qed

text \<open>The failing page may come last: the text of the first page is lost all the same.\<close>

theorem render_failure_aborts_witness:
  "RenderFails \<in> set
      [Rendered (Tuple4 True (Some [py ''a'', py ''b'']) (Some [square 0 0 20, square 30 0 20])),
       RenderFails] \<and>
   decode_qr_from_pdf True (Doc
      [Rendered (Tuple4 True (Some [py ''a'', py ''b'']) (Some [square 0 0 20, square 30 0 20])),
       RenderFails])
     = Inl RenderError \<and>
   main \<lparr>input_exists = True, fitz_available = True, cv_available = True,
         text_layer = None,
         doc = Doc
           [Rendered (Tuple4 True (Some [py ''a'', py ''b''])
              (Some [square 0 0 20, square 30 0 20])),
            RenderFails]\<rparr>
     = \<lparr>exit_status = 2, written = []\<rparr>"
proof -
  let ?pages = "[Rendered (Tuple4 True (Some [py ''a'', py ''b''])
      (Some [square 0 0 20, square 30 0 20])), RenderFails]"
  let ?w = "\<lparr>input_exists = True, fitz_available = True, cv_available = True,
         text_layer = None, doc = Doc ?pages\<rparr>"
  have m: "RenderFails \<in> set ?pages" by simp
  have h: "input_exists ?w \<and>
      extract_text_from_pdf (fitz_available ?w) (text_layer ?w) = [] \<and> doc ?w = Doc ?pages"
    by (simp add: extract_text_from_pdf_def)
  from render_failure_aborts [of ?pages True ?w] m h show ?thesis by blast
qed

text \<open>
  C8. The program exits with status 1 when the input file does not exist, and with
  status 2 when the direct path gives no text and the QR path raises; in both cases
  nothing is written. Whenever the status is 0 the output is written exactly once, and
  what is written is the text the pipeline ended with: the text of the direct path, or,
  when that is empty, the text the QR path returned. No other status occurs, and every
  status other than 0 comes with no write.
\<close>

theorem exit_status_and_output:
  "(\<not> input_exists w \<longrightarrow> main w = \<lparr>exit_status = 1, written = []\<rparr>) \<and>
   (input_exists w \<and> extract_text_from_pdf (fitz_available w) (text_layer w) = [] \<and>
      decode_qr_from_pdf (fitz_available w \<and> cv_available w) (doc w) = Inl e \<longrightarrow>
      main w = \<lparr>exit_status = 2, written = []\<rparr>) \<and>
   (exit_status (main w) = 0 \<longrightarrow>
      input_exists w \<and>
      (\<exists>t. written (main w) = [t] \<and>
         (if extract_text_from_pdf (fitz_available w) (text_layer w) \<noteq> []
          then t = extract_text_from_pdf (fitz_available w) (text_layer w)
          else decode_qr_from_pdf (fitz_available w \<and> cv_available w) (doc w) = Inr t))) \<and>
   (exit_status (main w) \<noteq> 0 \<longrightarrow> written (main w) = []) \<and>
   exit_status (main w) \<in> {0, 1, 2}"
proof (intro conjI impI)
  assume "\<not> input_exists w"
  then show "main w = \<lparr>exit_status = 1, written = []\<rparr>" by (simp add: main_def)
next
  assume "input_exists w \<and> extract_text_from_pdf (fitz_available w) (text_layer w) = [] \<and>
      decode_qr_from_pdf (fitz_available w \<and> cv_available w) (doc w) = Inl e"
  then have "input_exists w"
    and "extract_text_from_pdf (fitz_available w) (text_layer w) = []"
    and "decode_qr_from_pdf (fitz_available w \<and> cv_available w) (doc w) = Inl e" by blast+
  then show "main w = \<lparr>exit_status = 2, written = []\<rparr>" by (simp add: main_def Let_def)
next
  assume z: "exit_status (main w) = 0"
  then show "input_exists w" by (auto simp: main_def split: if_splits)
  from z show "\<exists>t. written (main w) = [t] \<and>
         (if extract_text_from_pdf (fitz_available w) (text_layer w) \<noteq> []
          then t = extract_text_from_pdf (fitz_available w) (text_layer w)
          else decode_qr_from_pdf (fitz_available w \<and> cv_available w) (doc w) = Inr t)"
    by (auto simp: main_def Let_def split: if_splits sum.splits)
next
  assume "exit_status (main w) \<noteq> 0"
  then show "written (main w) = []"
    by (auto simp: main_def Let_def split: if_splits sum.splits)
next
  show "exit_status (main w) \<in> {0, 1, 2}"
    by (auto simp: main_def Let_def split: if_splits sum.splits)
qed

text \<open>
  Three runs: the input is missing; OpenCV cannot be imported and the document has no
  text layer; the document has no text layer and its one page reads \<open>ab\<close>.
\<close>

theorem exit_status_and_output_witness:
  "main \<lparr>input_exists = False, fitz_available = True, cv_available = True,
         text_layer = Some [py ''x''], doc = Doc []\<rparr>
     = \<lparr>exit_status = 1, written = []\<rparr> \<and>
   main \<lparr>input_exists = True, fitz_available = True, cv_available = False,
         text_layer = Some [[]], doc = Doc []\<rparr>
     = \<lparr>exit_status = 2, written = []\<rparr> \<and>
   main \<lparr>input_exists = True, fitz_available = True, cv_available = True,
         text_layer = Some [[]],
         doc = Doc [Rendered (Tuple4 True (Some [py ''a'', py ''b''])
                 (Some [square 0 0 20, square 30 0 20]))]\<rparr>
     = \<lparr>exit_status = 0, written = [py ''ab'']\<rparr>"
proof -
  let ?w1 = "\<lparr>input_exists = False, fitz_available = True, cv_available = True,
         text_layer = Some [py ''x''], doc = Doc []\<rparr>"
  let ?w2 = "\<lparr>input_exists = True, fitz_available = True, cv_available = False,
         text_layer = Some [[]], doc = Doc []\<rparr>"
  let ?w3 = "\<lparr>input_exists = True, fitz_available = True, cv_available = True,
         text_layer = Some [[]],
         doc = Doc [Rendered (Tuple4 True (Some [py ''a'', py ''b''])
                 (Some [square 0 0 20, square 30 0 20]))]\<rparr>"
  have e: "extract_text_from_pdf True (Some [[]]) = []"
    by (simp add: extract_text_from_pdf_def clean_page_def replace_cr_def strip_def strip_with_def)
  have n1: "\<not> input_exists ?w1" by simp
  from exit_status_and_output [of ?w1] n1
  have r1: "main ?w1 = \<lparr>exit_status = 1, written = []\<rparr>" by blast
  have h2: "input_exists ?w2 \<and> extract_text_from_pdf (fitz_available ?w2) (text_layer ?w2) = [] \<and>
      decode_qr_from_pdf (fitz_available ?w2 \<and> cv_available ?w2) (doc ?w2) = Inl MissingDependency"
    using e by (simp add: decode_qr_from_pdf_def)
  from exit_status_and_output [of ?w2 MissingDependency] h2
  have r2: "main ?w2 = \<lparr>exit_status = 2, written = []\<rparr>" by blast
  have d3: "decode_qr_from_pdf (fitz_available ?w3 \<and> cv_available ?w3) (doc ?w3) = Inr (py ''ab'')"
    by (simp add: decode_qr_from_pdf_def ab_page_lines ab_compose)
  have z3: "exit_status (main ?w3) = 0"
    using e d3 by (simp add: main_def)
  from exit_status_and_output [of ?w3] z3 obtain t where
    t: "written (main ?w3) = [t]"
       "if extract_text_from_pdf (fitz_available ?w3) (text_layer ?w3) \<noteq> []
        then t = extract_text_from_pdf (fitz_available ?w3) (text_layer ?w3)
        else decode_qr_from_pdf (fitz_available ?w3 \<and> cv_available ?w3) (doc ?w3) = Inr t"
    by blast
  from t(2) e d3 have "t = py ''ab''" by simp
  with t(1) z3 have r3: "main ?w3 = \<lparr>exit_status = 0, written = [py ''ab'']\<rparr>"
    by (cases "main ?w3") simp
  from r1 r2 r3 show ?thesis by blast
qed

end
